theory Spec2Isabelle
  imports Main "HOL-Library.Word" "HOL-Library.Signed_Division"
begin

section \<open>k2/csrc/context.h: device contexts, regions, Eval and the stream override\<close>

subsection \<open>Machine types\<close>

text \<open>
  \<open>size_t\<close> and pointers (\<open>void *\<close>, \<open>cudaStream_t\<close>) are 64-bit words, as on the
  64-bit platforms CUDA runs on; \<open>int32_t\<close> is a 32-bit word read with \<open>sint\<close> and
  compared with the signed orders. Arithmetic on words wraps, as unsigned arithmetic does
  in the source.
\<close>

type_synonym size_t = "64 word"
type_synonym ptr = "64 word"
type_synonym cudaStream_t = "64 word"
type_synonym int32_t = "32 word"
type_synonym byte = "8 word"
type_synonym cudaError_t = nat

text \<open>\<open>#define kCudaStreamInvalid ((cudaStream_t)(~((size_t)0)))\<close>\<close>

definition kCudaStreamInvalid :: cudaStream_t where
  "kCudaStreamInvalid = not 0"

definition cudaSuccess :: cudaError_t where
  "cudaSuccess = 0"

datatype DeviceType = kUnk | kCuda | kCpu

text \<open>
  The two ways a call can end without returning: a fatal log or failed check, which
  terminates the process, and the exception \<open>Context::Allocate\<close> raises on failure.
\<close>

datatype error = Fatal | AllocationFailed

subsection \<open>Context\<close>

text \<open>
  \<open>Context\<close> is an abstract class; a concrete context supplies the virtual methods. The
  record holds what the methods used in this file return. \<open>Allocate\<close> and \<open>Deallocate\<close>
  act on the bookkeeping \<open>'a\<close> of the allocator behind the context, whatever it is, and
  not on the bytes of the blocks: \<open>Allocate\<close> returns the block, the deleter context and
  the new bookkeeping, or raises.
\<close>

record 'a Context =
  GetDeviceType :: DeviceType
  GetCudaStream :: cudaStream_t
  Allocate :: "size_t \<Rightarrow> 'a \<Rightarrow> error + (ptr \<times> ptr \<times> 'a)"
  Deallocate :: "ptr \<Rightarrow> ptr \<Rightarrow> 'a \<Rightarrow> 'a"

subsection \<open>Classifying and performing a copy\<close>

datatype MemoryCopyKind =
  MemcpyHostToHost
  | MemcpyHostToDevice
  | MemcpyDeviceToHost
  | MemcpyDeviceToDevice
  | MemcpyUnknown

datatype cudaMemcpyKind =
  cudaMemcpyHostToHost
  | cudaMemcpyHostToDevice
  | cudaMemcpyDeviceToHost
  | cudaMemcpyDeviceToDevice

text \<open>
  Modelled from the spec: \<open>K2_LOG(FATAL)\<close>, \<open>K2_CHECK\<close>, \<open>K2_CHECK_CUDA_ERROR\<close>,
  \<open>K2_DCHECK\<close> and \<open>K2_DCHECK_EQ\<close> come from \<open>k2/csrc/log.h\<close>, which is not among the
  sources. The spec calls an unsupported copy kind, a failed transfer and a violated stack
  discipline fatal, process-terminating conditions: a fatal log and a failed check end the
  call with \<open>Inl Fatal\<close>, so the statement after \<open>K2_LOG(FATAL)\<close> is not reached.
\<close>

definition GetMemoryCopyKind :: "'a Context \<Rightarrow> 'b Context \<Rightarrow> error + MemoryCopyKind" where
  "GetMemoryCopyKind src dst =
     (if GetDeviceType src = kCpu \<and> GetDeviceType dst = kCpu then Inr MemcpyHostToHost
      else if GetDeviceType src = kCpu \<and> GetDeviceType dst = kCuda then Inr MemcpyHostToDevice
      else if GetDeviceType src = kCuda \<and> GetDeviceType dst = kCpu then Inr MemcpyDeviceToHost
      else if GetDeviceType src = kCuda \<and> GetDeviceType dst = kCuda then Inr MemcpyDeviceToDevice
      else Inl Fatal)"

definition copy_kind_mappings :: "MemoryCopyKind \<rightharpoonup> cudaMemcpyKind" where
  "copy_kind_mappings =
     [MemcpyHostToHost \<mapsto> cudaMemcpyHostToHost,
      MemcpyHostToDevice \<mapsto> cudaMemcpyHostToDevice,
      MemcpyDeviceToHost \<mapsto> cudaMemcpyDeviceToHost,
      MemcpyDeviceToDevice \<mapsto> cudaMemcpyDeviceToDevice]"

text \<open>
  \<open>cudaMemcpy\<close> belongs to the CUDA runtime: it is a parameter, a function from the
  arguments and the memory to an error code and the memory it leaves.
\<close>

type_synonym memory = "ptr \<Rightarrow> byte"
type_synonym cudaMemcpy_t =
  "ptr \<Rightarrow> ptr \<Rightarrow> size_t \<Rightarrow> cudaMemcpyKind \<Rightarrow> memory \<Rightarrow> cudaError_t \<times> memory"

definition MemoryCopy ::
  "cudaMemcpy_t \<Rightarrow> ptr \<Rightarrow> ptr \<Rightarrow> size_t \<Rightarrow> MemoryCopyKind \<Rightarrow> memory \<Rightarrow> error + memory" where
  "MemoryCopy cudaMemcpy dst src count kind m =
     (case copy_kind_mappings kind of
        None \<Rightarrow> Inl Fatal
      | Some k \<Rightarrow>
          (case cudaMemcpy dst src count k m of
             (ret, m') \<Rightarrow> if ret \<noteq> cudaSuccess then Inl Fatal else Inr m'))"

subsection \<open>Region\<close>

text \<open>
  What \<open>Extend\<close> acts on besides the region itself: the bytes of the device memory, the
  bookkeeping of the allocator, and a log of the calls made to \<open>Allocate\<close>, the copy and
  \<open>Deallocate\<close>. The log is ghost state: nothing reads it, it only records the calls.
\<close>

datatype call =
  Call_Allocate size_t
  | Call_MemoryCopy ptr ptr size_t MemoryCopyKind
  | Call_Deallocate ptr ptr

record 'a world =
  mem :: memory
  allocator :: 'a
  calls :: "call list"

record 'a Region =
  "context" :: "'a Context"
  data :: ptr
  deleter_context :: ptr
  num_bytes :: size_t
  bytes_used :: size_t

text \<open>
  The two loops that round \<open>new_size\<close> up, \<open>while (i < new_size / 8) i <<= 3;\<close> and
  \<open>while (i < new_size) i <<= 1;\<close>. The shift wraps in 64 bits, so a loop need not
  end: \<open>None\<close> is the loop that runs forever.
\<close>

partial_function (option) Extend_loop8 :: "size_t \<Rightarrow> size_t \<Rightarrow> size_t option" where
  "Extend_loop8 i new_size =
     (if i < new_size div 8 then Extend_loop8 (push_bit 3 i) new_size else Some i)"

partial_function (option) Extend_loop2 :: "size_t \<Rightarrow> size_t \<Rightarrow> size_t option" where
  "Extend_loop2 i new_size =
     (if i < new_size then Extend_loop2 (push_bit 1 i) new_size else Some i)"

declare Extend_loop8.simps [code]
declare Extend_loop2.simps [code]

text \<open>Lines 293 to 297: the capacity chosen for the new block.\<close>

definition Extend_new_size :: "size_t \<Rightarrow> size_t \<Rightarrow> size_t option" where
  "Extend_new_size num_bytes0 new_bytes_used =
     (let new_size = max (num_bytes0 * 2) new_bytes_used in
      case Extend_loop8 4 new_size of
        None \<Rightarrow> None
      | Some i \<Rightarrow> Extend_loop2 i new_size)"

text \<open>
  \<open>Region::Extend\<close>. The result is \<open>None\<close> when the call never returns, \<open>Some (Inl e)\<close>
  when it ends in a fatal error or an exception, \<open>Some (Inr (r', w'))\<close> when it returns.
\<close>

definition Extend ::
  "cudaMemcpy_t \<Rightarrow> 'a Region \<Rightarrow> size_t \<Rightarrow> 'a world \<Rightarrow> (error + 'a Region \<times> 'a world) option" where
  "Extend cudaMemcpy r new_bytes_used w =
     (if new_bytes_used \<le> bytes_used r then Some (Inr (r, w))
      else if num_bytes r < new_bytes_used then
        (case Extend_new_size (num_bytes r) new_bytes_used of
           None \<Rightarrow> None
         | Some new_size \<Rightarrow>
             (case Allocate (context r) new_size (allocator w) of
                Inl e \<Rightarrow> Some (Inl e)
              | Inr (new_data, new_deleter_context, a1) \<Rightarrow>
                  (case GetMemoryCopyKind (context r) (context r) of
                     Inl e \<Rightarrow> Some (Inl e)
                   | Inr kind \<Rightarrow>
                       (case MemoryCopy cudaMemcpy new_data (data r) (bytes_used r) kind (mem w) of
                          Inl e \<Rightarrow> Some (Inl e)
                        | Inr m1 \<Rightarrow>
                            Some (Inr
                              (r\<lparr>data := new_data,
                                 deleter_context := new_deleter_context,
                                 num_bytes := new_size,
                                 bytes_used := new_bytes_used\<rparr>,
                               w\<lparr>mem := m1,
                                 allocator :=
                                   Deallocate (context r) (data r) (deleter_context r) a1,
                                 calls := calls w @
                                   [Call_Allocate new_size,
                                    Call_MemoryCopy new_data (data r) (bytes_used r) kind,
                                    Call_Deallocate (data r) (deleter_context r)]\<rparr>))))))
      else Some (Inr (r\<lparr>bytes_used := new_bytes_used\<rparr>, w)))"

subsection \<open>Eval and Eval2\<close>

text \<open>
  A lambda is a closure with effects: it maps the index and the state it acts on to the
  new state. The kernel launch of the device branch, together with the
  \<open>cudaGetLastError\<close> that follows it, belongs to the CUDA runtime and is a parameter.
\<close>

definition NumBlocks :: "int32_t \<Rightarrow> int32_t \<Rightarrow> int32_t" where
  "NumBlocks sz block_size =
     word_of_int (sint (sz + block_size - 1) sdiv sint block_size)"

text \<open>\<open>for (int32_t i = 0; i < n; ++i) lambda(i);\<close>, from the current \<open>i\<close> on.\<close>

function Eval_loop :: "(int32_t \<Rightarrow> 's \<Rightarrow> 's) \<Rightarrow> int32_t \<Rightarrow> int32_t \<Rightarrow> 's \<Rightarrow> 's" where
  "Eval_loop lambda n i s =
     (if i <s n then Eval_loop lambda n (i + 1) (lambda i s) else s)"
  by pat_completeness auto
termination
proof (relation "measure (\<lambda>(lambda, n, i, s). nat (sint n - sint i))")
  show "wf (measure (\<lambda>(lambda :: int32_t \<Rightarrow> 's \<Rightarrow> 's, n :: int32_t, i :: int32_t, s :: 's).
      nat (sint n - sint i)))"
    by simp
next
  fix lambda :: "int32_t \<Rightarrow> 's \<Rightarrow> 's" and n i :: int32_t and s :: 's
  assume "i <s n"
  then have lt: "sint i < sint n" by (simp add: word_sless_alt)
  have "sint n < 2 ^ 31" using sint_lt [of n] by simp
  moreover have "- (2 ^ 31) \<le> sint i" using sint_ge [of i] by simp
  ultimately have "sint (i + 1) = sint i + 1"
    using lt by (simp add: sint_word_add signed_take_bit_int_eq_self)
  then show "((lambda, n, i + 1, lambda i s), (lambda, n, i, s))
      \<in> measure (\<lambda>(lambda, n, i, s). nat (sint n - sint i))"
    using lt by simp
qed

type_synonym 's eval_launch =
  "int32_t \<Rightarrow> int32_t \<Rightarrow> cudaStream_t \<Rightarrow> int32_t \<Rightarrow> (int32_t \<Rightarrow> 's \<Rightarrow> 's) \<Rightarrow> 's
   \<Rightarrow> cudaError_t \<times> 's"

definition Eval ::
  "'s eval_launch \<Rightarrow> cudaStream_t \<Rightarrow> int32_t \<Rightarrow> (int32_t \<Rightarrow> 's \<Rightarrow> 's) \<Rightarrow> 's \<Rightarrow> error + 's" where
  "Eval launch stream n lambda s =
     (if n \<le>s 0 then Inr s
      else if stream = kCudaStreamInvalid then Inr (Eval_loop lambda n 0 s)
      else
        (let block_size = 256;
             grid_size = NumBlocks n block_size
         in case launch grid_size block_size stream n lambda s of
              (err, s') \<Rightarrow> if err \<noteq> cudaSuccess then Inl Fatal else Inr s'))"

definition Eval_ctx ::
  "'s eval_launch \<Rightarrow> 'a Context \<Rightarrow> int32_t \<Rightarrow> (int32_t \<Rightarrow> 's \<Rightarrow> 's) \<Rightarrow> 's \<Rightarrow> error + 's" where
  "Eval_ctx launch c n lambda s = Eval launch (GetCudaStream c) n lambda s"

text \<open>
  The form that writes \<open>data[i] = lambda(i)\<close>. The array behind the pointer \<open>data\<close> is
  the function from the offset to the element there; the lambda returns the element and
  the new state of what it captured.
\<close>

function Eval_data_loop ::
  "(int32_t \<Rightarrow> 's \<Rightarrow> 'a \<times> 's) \<Rightarrow> int32_t \<Rightarrow> int32_t \<Rightarrow> (int \<Rightarrow> 'a) \<Rightarrow> 's \<Rightarrow> (int \<Rightarrow> 'a) \<times> 's" where
  "Eval_data_loop lambda n i d s =
     (if i <s n then
        (let (v, s') = lambda i s in Eval_data_loop lambda n (i + 1) (d(sint i := v)) s')
      else (d, s))"
  by pat_completeness auto
termination
proof (relation "measure (\<lambda>(lambda, n, i, d, s). nat (sint n - sint i))", goal_cases)
  case 1
  show ?case by simp
next
  case (2 lambda n i d s x v s')
  then have lt: "sint i < sint n" by (simp add: word_sless_alt)
  have "sint n < 2 ^ 31" using sint_lt [of n] by simp
  moreover have "- (2 ^ 31) \<le> sint i" using sint_ge [of i] by simp
  ultimately have "sint (i + 1) = sint i + 1"
    using lt by (simp add: sint_word_add signed_take_bit_int_eq_self)
  then show ?case using lt by simp
qed

type_synonym ('a, 's) eval_data_launch =
  "int32_t \<Rightarrow> int32_t \<Rightarrow> cudaStream_t \<Rightarrow> (int \<Rightarrow> 'a) \<Rightarrow> int32_t \<Rightarrow> (int32_t \<Rightarrow> 's \<Rightarrow> 'a \<times> 's)
   \<Rightarrow> 's \<Rightarrow> cudaError_t \<times> (int \<Rightarrow> 'a) \<times> 's"

definition Eval_data ::
  "('a, 's) eval_data_launch \<Rightarrow> cudaStream_t \<Rightarrow> (int \<Rightarrow> 'a) \<Rightarrow> int32_t
   \<Rightarrow> (int32_t \<Rightarrow> 's \<Rightarrow> 'a \<times> 's) \<Rightarrow> 's \<Rightarrow> error + (int \<Rightarrow> 'a) \<times> 's" where
  "Eval_data launch stream d n lambda s =
     (if n \<le>s 0 then Inr (d, s)
      else if stream = kCudaStreamInvalid then Inr (Eval_data_loop lambda n 0 d s)
      else
        (let block_size = 256;
             grid_size = NumBlocks n block_size
         in case launch grid_size block_size stream d n lambda s of
              (err, ds') \<Rightarrow> if err \<noteq> cudaSuccess then Inl Fatal else Inr ds'))"

definition Eval_data_ctx ::
  "('a, 's) eval_data_launch \<Rightarrow> 'b Context \<Rightarrow> (int \<Rightarrow> 'a) \<Rightarrow> int32_t
   \<Rightarrow> (int32_t \<Rightarrow> 's \<Rightarrow> 'a \<times> 's) \<Rightarrow> 's \<Rightarrow> error + (int \<Rightarrow> 'a) \<times> 's" where
  "Eval_data_ctx launch c d n lambda s = Eval_data launch (GetCudaStream c) d n lambda s"

text \<open>\<open>Eval2\<close>: the inner loop over \<open>j\<close>, the outer loop over \<open>i\<close>.\<close>

function Eval2_inner ::
  "(int32_t \<Rightarrow> int32_t \<Rightarrow> 's \<Rightarrow> 's) \<Rightarrow> int32_t \<Rightarrow> int32_t \<Rightarrow> int32_t \<Rightarrow> 's \<Rightarrow> 's" where
  "Eval2_inner lambda n i j s =
     (if j <s n then Eval2_inner lambda n i (j + 1) (lambda i j s) else s)"
  by pat_completeness auto
termination
proof (relation "measure (\<lambda>(lambda, n, i, j, s). nat (sint n - sint j))")
  show "wf (measure (\<lambda>(lambda :: int32_t \<Rightarrow> int32_t \<Rightarrow> 's \<Rightarrow> 's, n :: int32_t, i :: int32_t,
      j :: int32_t, s :: 's). nat (sint n - sint j)))"
    by simp
next
  fix lambda :: "int32_t \<Rightarrow> int32_t \<Rightarrow> 's \<Rightarrow> 's" and n i j :: int32_t and s :: 's
  assume "j <s n"
  then have lt: "sint j < sint n" by (simp add: word_sless_alt)
  have "sint n < 2 ^ 31" using sint_lt [of n] by simp
  moreover have "- (2 ^ 31) \<le> sint j" using sint_ge [of j] by simp
  ultimately have "sint (j + 1) = sint j + 1"
    using lt by (simp add: sint_word_add signed_take_bit_int_eq_self)
  then show "((lambda, n, i, j + 1, lambda i j s), (lambda, n, i, j, s))
      \<in> measure (\<lambda>(lambda, n, i, j, s). nat (sint n - sint j))"
    using lt by simp
qed

function Eval2_outer ::
  "(int32_t \<Rightarrow> int32_t \<Rightarrow> 's \<Rightarrow> 's) \<Rightarrow> int32_t \<Rightarrow> int32_t \<Rightarrow> int32_t \<Rightarrow> 's \<Rightarrow> 's" where
  "Eval2_outer lambda m n i s =
     (if i <s m then Eval2_outer lambda m n (i + 1) (Eval2_inner lambda n i 0 s) else s)"
  by pat_completeness auto
termination
proof (relation "measure (\<lambda>(lambda, m, n, i, s). nat (sint m - sint i))")
  show "wf (measure (\<lambda>(lambda :: int32_t \<Rightarrow> int32_t \<Rightarrow> 's \<Rightarrow> 's, m :: int32_t, n :: int32_t,
      i :: int32_t, s :: 's). nat (sint m - sint i)))"
    by simp
next
  fix lambda :: "int32_t \<Rightarrow> int32_t \<Rightarrow> 's \<Rightarrow> 's" and m n i :: int32_t and s :: 's
  assume "i <s m"
  then have lt: "sint i < sint m" by (simp add: word_sless_alt)
  have "sint m < 2 ^ 31" using sint_lt [of m] by simp
  moreover have "- (2 ^ 31) \<le> sint i" using sint_ge [of i] by simp
  ultimately have "sint (i + 1) = sint i + 1"
    using lt by (simp add: sint_word_add signed_take_bit_int_eq_self)
  then show "((lambda, m, n, i + 1, Eval2_inner lambda n i 0 s), (lambda, m, n, i, s))
      \<in> measure (\<lambda>(lambda, m, n, i, s). nat (sint m - sint i))"
    using lt by simp
qed

text \<open>\<open>dim3\<close>: three unsigned components; a missing one is 1.\<close>

type_synonym dim3 = "32 word \<times> 32 word \<times> 32 word"

type_synonym 's eval2_launch =
  "dim3 \<Rightarrow> dim3 \<Rightarrow> cudaStream_t \<Rightarrow> int32_t \<Rightarrow> int32_t \<Rightarrow> (int32_t \<Rightarrow> int32_t \<Rightarrow> 's \<Rightarrow> 's) \<Rightarrow> 's
   \<Rightarrow> cudaError_t \<times> 's"

definition Eval2 ::
  "'s eval2_launch \<Rightarrow> cudaStream_t \<Rightarrow> int32_t \<Rightarrow> int32_t \<Rightarrow> (int32_t \<Rightarrow> int32_t \<Rightarrow> 's \<Rightarrow> 's) \<Rightarrow> 's
   \<Rightarrow> error + 's" where
  "Eval2 launch stream m n lambda s =
     (if m \<le>s 0 \<or> n \<le>s 0 then Inr s
      else if stream = kCudaStreamInvalid then Inr (Eval2_outer lambda m n 0 s)
      else
        (let block_size = (16, 16, 1);
             grid_size = (NumBlocks n 16, NumBlocks m 16, 1)
         in case launch grid_size block_size stream m n lambda s of
              (err, s') \<Rightarrow> if err \<noteq> cudaSuccess then Inl Fatal else Inr s'))"

definition Eval2_ctx ::
  "'s eval2_launch \<Rightarrow> 'a Context \<Rightarrow> int32_t \<Rightarrow> int32_t \<Rightarrow> (int32_t \<Rightarrow> int32_t \<Rightarrow> 's \<Rightarrow> 's) \<Rightarrow> 's
   \<Rightarrow> error + 's" where
  "Eval2_ctx launch c m n lambda s = Eval2 launch (GetCudaStream c) m n lambda s"

subsection \<open>The stream override\<close>

text \<open>
  \<open>CudaStreamOverride\<close>, with the members \<open>stream_override_\<close> and \<open>stack_\<close> written
  without the trailing underscore. The thread-local \<open>g_stream_override\<close> is the state
  that \<open>Push\<close>, \<open>Pop\<close> and the constructor and destructor of \<open>With\<close> pass on.
  \<open>push_back\<close> appends at the end of the list, \<open>back\<close> is \<open>last\<close>, \<open>pop_back\<close> is
  \<open>butlast\<close>.
\<close>

record CudaStreamOverride =
  stream_override :: cudaStream_t
  stack :: "cudaStream_t list"

definition CudaStreamOverride_ctor :: CudaStreamOverride where
  "CudaStreamOverride_ctor = \<lparr>stream_override = 0, stack = []\<rparr>"

definition OverrideStream :: "CudaStreamOverride \<Rightarrow> cudaStream_t \<Rightarrow> cudaStream_t" where
  "OverrideStream g stream =
     (if stream_override g \<noteq> 0 \<and> stream \<noteq> kCudaStreamInvalid then stream_override g
      else stream)"

definition Push :: "CudaStreamOverride \<Rightarrow> cudaStream_t \<Rightarrow> CudaStreamOverride" where
  "Push g stream = g\<lparr>stack := stack g @ [stream], stream_override := stream\<rparr>"

definition Pop :: "CudaStreamOverride \<Rightarrow> cudaStream_t \<Rightarrow> error + CudaStreamOverride" where
  "Pop g stream =
     (if stack g = [] then Inl Fatal
      else if last (stack g) \<noteq> stream then Inl Fatal
      else Inr (g\<lparr>stack := butlast (stack g)\<rparr>))"

text \<open>\<open>With\<close>: the constructor stores the stream and pushes it, the destructor pops it.\<close>

record With =
  With_stream :: cudaStream_t

definition With_ctor :: "cudaStream_t \<Rightarrow> CudaStreamOverride \<Rightarrow> With \<times> CudaStreamOverride" where
  "With_ctor stream g = (\<lparr>With_stream = stream\<rparr>, Push g stream)"

definition With_dtor :: "With \<Rightarrow> CudaStreamOverride \<Rightarrow> error + CudaStreamOverride" where
  "With_dtor w g = Pop g (With_stream w)"

subsection \<open>A concrete context\<close>

text \<open>
  A context whose allocator hands out consecutive addresses: the bookkeeping is the next
  free address, a request for zero bytes returns the null pointer, and \<open>Deallocate\<close>
  leaves the bookkeeping as it is. It serves as the concrete input of the examples.
\<close>

definition bump_Allocate :: "size_t \<Rightarrow> ptr \<Rightarrow> error + (ptr \<times> ptr \<times> ptr)" where
  "bump_Allocate bytes next_free =
     (if bytes = 0 then Inr (0, 0, next_free) else Inr (next_free, 0, next_free + bytes))"

definition example_context :: "DeviceType \<Rightarrow> ptr Context" where
  "example_context d =
     \<lparr>GetDeviceType = d,
      GetCudaStream = (if d = kCuda then 0 else kCudaStreamInvalid),
      Allocate = bump_Allocate,
      Deallocate = (\<lambda>p dc a. a)\<rparr>"

subsection \<open>The capacity rule and the copy, as the spec words them\<close>

text \<open>
  \<open>least_pow2_ge p x\<close>: \<open>p\<close> is the next power of two that is at least \<open>x\<close>, that is,
  a power of two, at least \<open>x\<close>, and below every other power of two that is at least
  \<open>x\<close>.
\<close>

definition least_pow2_ge :: "nat \<Rightarrow> nat \<Rightarrow> bool" where
  "least_pow2_ge p x \<longleftrightarrow> (\<exists>k. p = 2 ^ k) \<and> x \<le> p \<and> (\<forall>j. x \<le> 2 ^ j \<longrightarrow> p \<le> 2 ^ j)"

text \<open>
  What a successful same-device copy of \<open>count\<close> bytes leaves in memory: the bytes at
  \<open>dst\<close>, \<open>dst + 1\<close>, ..., \<open>dst + count - 1\<close> are the ones that were at \<open>src\<close>,
  \<open>src + 1\<close>, ..., every other byte is as before. \<open>cudaMemcpy_ok\<close> is a runtime whose copy
  always succeeds in this way.
\<close>

definition copy_bytes :: "ptr \<Rightarrow> ptr \<Rightarrow> size_t \<Rightarrow> memory \<Rightarrow> memory" where
  "copy_bytes dst src count m = (\<lambda>a. if a - dst < count then m (src + (a - dst)) else m a)"

definition cudaMemcpy_ok :: cudaMemcpy_t where
  "cudaMemcpy_ok dst src count kind m = (cudaSuccess, copy_bytes dst src count m)"

text \<open>
  A region of \<open>n\<close> bytes as \<open>NewRegion\<close> leaves it, with \<open>bytes_used = num_bytes\<close>, on the
  host context above, and a world in which the byte at each address is the low byte of the
  address.
\<close>

definition example_region :: "size_t \<Rightarrow> ptr Region" where
  "example_region n =
     \<lparr>context = example_context kCpu,
      data = 0x1000,
      deleter_context = 0,
      num_bytes = n,
      bytes_used = n\<rparr>"

definition example_world :: "ptr world" where
  "example_world = \<lparr>mem = (\<lambda>a. ucast a), allocator = 0x2000, calls = []\<rparr>"

subsection \<open>Index lists of the host loops\<close>

text \<open>
  The host loops are compared with folds over the list of indices in ascending order.
  \<open>write_step\<close> is one iteration of the loop that writes \<open>data[i] = lambda(i)\<close>, as a
  function on the pair of the array and the state; \<open>index_pair\<close> turns a pair of
  positions into the pair of \<open>int32_t\<close> indices the lambda of \<open>Eval2\<close> receives.
\<close>

definition write_step ::
  "(int32_t \<Rightarrow> 's \<Rightarrow> 'a \<times> 's) \<Rightarrow> nat \<Rightarrow> (int \<Rightarrow> 'a) \<times> 's \<Rightarrow> (int \<Rightarrow> 'a) \<times> 's" where
  "write_step lambda k ds =
     (case ds of (d, s) \<Rightarrow> (case lambda (of_nat k) s of (v, s') \<Rightarrow> (d(int k := v), s')))"

definition index_pair :: "nat \<times> nat \<Rightarrow> int32_t \<times> int32_t" where
  "index_pair p = (of_nat (fst p), of_nat (snd p))"

declare Eval_loop.simps [simp del]
declare Eval_data_loop.simps [simp del]
declare Eval2_inner.simps [simp del]
declare Eval2_outer.simps [simp del]

section \<open>Properties\<close>

subsection \<open>GetMemoryCopyKind\<close>

text \<open>
  C5. \<open>GetMemoryCopyKind src dst\<close> is host to host when both contexts are \<open>kCpu\<close>, host
  to device for \<open>kCpu\<close> and \<open>kCuda\<close>, device to host for \<open>kCuda\<close> and \<open>kCpu\<close>, device to
  device when both are \<open>kCuda\<close>, and fatal for every other pair of device types, in
  particular when one of them is \<open>kUnk\<close>; \<open>MemcpyUnknown\<close> is never returned.
\<close>

theorem GetMemoryCopyKind_classifies:
  "(GetDeviceType src = kCpu \<and> GetDeviceType dst = kCpu
      \<longrightarrow> GetMemoryCopyKind src dst = Inr MemcpyHostToHost) \<and>
   (GetDeviceType src = kCpu \<and> GetDeviceType dst = kCuda
      \<longrightarrow> GetMemoryCopyKind src dst = Inr MemcpyHostToDevice) \<and>
   (GetDeviceType src = kCuda \<and> GetDeviceType dst = kCpu
      \<longrightarrow> GetMemoryCopyKind src dst = Inr MemcpyDeviceToHost) \<and>
   (GetDeviceType src = kCuda \<and> GetDeviceType dst = kCuda
      \<longrightarrow> GetMemoryCopyKind src dst = Inr MemcpyDeviceToDevice) \<and>
   (GetDeviceType src \<notin> {kCpu, kCuda} \<or> GetDeviceType dst \<notin> {kCpu, kCuda}
      \<longrightarrow> GetMemoryCopyKind src dst = Inl Fatal) \<and>
   (GetDeviceType src = kUnk \<or> GetDeviceType dst = kUnk
      \<longrightarrow> GetMemoryCopyKind src dst = Inl Fatal) \<and>
   GetMemoryCopyKind src dst \<noteq> Inr MemcpyUnknown"
  by (cases "GetDeviceType src"; cases "GetDeviceType dst") (simp_all add: GetMemoryCopyKind_def)

theorem GetMemoryCopyKind_classifies_witness:
  "GetMemoryCopyKind (example_context kCpu) (example_context kCpu) = Inr MemcpyHostToHost \<and>
   GetMemoryCopyKind (example_context kCpu) (example_context kCuda) = Inr MemcpyHostToDevice \<and>
   GetMemoryCopyKind (example_context kCuda) (example_context kCpu) = Inr MemcpyDeviceToHost \<and>
   GetMemoryCopyKind (example_context kCuda) (example_context kCuda) = Inr MemcpyDeviceToDevice \<and>
   GetMemoryCopyKind (example_context kUnk) (example_context kCpu) = Inl Fatal \<and>
   GetMemoryCopyKind (example_context kCuda) (example_context kUnk) = Inl Fatal \<and>
   GetMemoryCopyKind (example_context kUnk) (example_context kUnk) = Inl Fatal"
  using GetMemoryCopyKind_classifies [of "example_context kCpu" "example_context kCpu"]
    GetMemoryCopyKind_classifies [of "example_context kCpu" "example_context kCuda"]
    GetMemoryCopyKind_classifies [of "example_context kCuda" "example_context kCpu"]
    GetMemoryCopyKind_classifies [of "example_context kCuda" "example_context kCuda"]
    GetMemoryCopyKind_classifies [of "example_context kUnk" "example_context kCpu"]
    GetMemoryCopyKind_classifies [of "example_context kCuda" "example_context kUnk"]
    GetMemoryCopyKind_classifies [of "example_context kUnk" "example_context kUnk"]
  by (simp add: example_context_def)

subsection \<open>The stream override\<close>

text \<open>
  What pushing and popping in stack order does to the state: the stack is restored, and
  \<open>stream_override\<close> keeps the token pushed last, since \<open>Pop\<close> does not assign it.
\<close>

lemma Pop_Push:
  "Pop (Push g a) a = Inr (g\<lparr>stream_override := a\<rparr>)"
  by (simp add: Pop_def Push_def)

lemma Pop_Pop_Push_Push:
  "(case Pop (Push (Push g a) b) b of Inl e \<Rightarrow> Inl e | Inr g' \<Rightarrow> Pop g' a)
     = Inr (g\<lparr>stream_override := b\<rparr>)"
  by (simp add: Pop_def Push_def butlast_append)

lemma Pop_out_of_order:
  "a \<noteq> b \<Longrightarrow> Pop (Push (Push g a) b) a = Inl Fatal"
  by (simp add: Pop_def Push_def)

lemma Pop_empty:
  "Pop CudaStreamOverride_ctor a = Inl Fatal"
  by (simp add: Pop_def CudaStreamOverride_ctor_def)

text \<open>
  C2. Two nested \<open>With\<close> scopes on a fresh \<open>CudaStreamOverride\<close>, for the tokens 1 and
  2, closed in stack order: the stack is empty again, but \<open>stream_override\<close> is 2 and
  not 0 as before the first push, so a dispatch that asks for stream 5 resolved to 5
  before the scopes and resolves to 2 after them.
\<close>

theorem With_nesting_leaves_override:
  "(case With_ctor 1 CudaStreamOverride_ctor of
      (wa, g1) \<Rightarrow>
        (case With_ctor 2 g1 of
           (wb, g2) \<Rightarrow>
             (case With_dtor wb g2 of
                Inl e \<Rightarrow> Inl e
              | Inr g3 \<Rightarrow> With_dtor wa g3)))
     = Inr \<lparr>stream_override = 2, stack = []\<rparr> \<and>
   CudaStreamOverride_ctor = \<lparr>stream_override = 0, stack = []\<rparr> \<and>
   OverrideStream CudaStreamOverride_ctor 5 = 5 \<and>
   OverrideStream \<lparr>stream_override = 2, stack = []\<rparr> 5 = 2"
  by (simp add: With_ctor_def With_dtor_def Pop_def Push_def CudaStreamOverride_ctor_def
      OverrideStream_def kCudaStreamInvalid_def butlast_append)

text \<open>
  C9, as stated, fails for the null token: after \<open>Push 0\<close> the stack is \<open>[0]\<close>, and a
  dispatch that asks for stream 7, which is not the sentinel, still gets 7 and not the
  token on top of the stack.
\<close>

theorem Push_null_token_counterexample:
  "stack (Push CudaStreamOverride_ctor 0) = [0] \<and>
   (7 :: cudaStream_t) \<noteq> kCudaStreamInvalid \<and>
   OverrideStream (Push CudaStreamOverride_ctor 0) 7 = 7 \<and>
   (7 :: cudaStream_t) \<noteq> last (stack (Push CudaStreamOverride_ctor 0))"
  by (simp add: Push_def CudaStreamOverride_ctor_def OverrideStream_def kCudaStreamInvalid_def)

text \<open>
  C9, amended. Right after \<open>Push g t\<close> the token \<open>t\<close> is on top of the stack and is
  what \<open>stream_override\<close> holds. When \<open>t\<close> is not the null token 0, \<open>OverrideStream\<close>
  returns it, the top of the stack, for every requested stream \<open>s\<close> other than the
  sentinel; when \<open>t\<close> is 0 or \<open>s\<close> is the sentinel it returns \<open>s\<close>. In every state the
  sentinel is returned unchanged.
\<close>

theorem OverrideStream_after_Push:
  "stream_override (Push g t) = t \<and>
   stack (Push g t) \<noteq> [] \<and>
   last (stack (Push g t)) = t \<and>
   (t \<noteq> 0 \<and> s \<noteq> kCudaStreamInvalid
      \<longrightarrow> OverrideStream (Push g t) s = last (stack (Push g t))) \<and>
   (t = 0 \<or> s = kCudaStreamInvalid \<longrightarrow> OverrideStream (Push g t) s = s) \<and>
   OverrideStream g kCudaStreamInvalid = kCudaStreamInvalid"
  by (simp add: Push_def OverrideStream_def)

theorem OverrideStream_after_Push_witness:
  "OverrideStream (Push CudaStreamOverride_ctor 5) 7 = 5 \<and>
   last (stack (Push CudaStreamOverride_ctor 5)) = 5 \<and>
   OverrideStream (Push CudaStreamOverride_ctor 5) kCudaStreamInvalid = kCudaStreamInvalid \<and>
   OverrideStream (Push (Push CudaStreamOverride_ctor 5) 0) 7 = 7"
  using OverrideStream_after_Push [of CudaStreamOverride_ctor 5 7]
    OverrideStream_after_Push [of CudaStreamOverride_ctor 5 kCudaStreamInvalid]
    OverrideStream_after_Push [of "Push CudaStreamOverride_ctor 5" 0 7]
  by (simp add: kCudaStreamInvalid_def)

subsection \<open>Eval and Eval2 on the host\<close>

text \<open>
  While \<open>i < n\<close> holds in \<open>int32_t\<close>, \<open>++i\<close> does not overflow; each host loop is
  the fold of its body over the ascending list of the indices that are left.
\<close>

lemma sint_succ_sless:
  fixes i n :: int32_t
  assumes "i <s n"
  shows "sint (i + 1) = sint i + 1"
proof -
  have "sint i < sint n" using assms by (simp add: word_sless_alt)
  moreover have "sint n < 2 ^ 31" using sint_lt [of n] by simp
  moreover have "- (2 ^ 31) \<le> sint i" using sint_ge [of i] by simp
  ultimately show ?thesis
    by (simp add: sint_word_add signed_take_bit_int_eq_self)
qed

lemma Eval_loop_fold:
  "0 \<le> sint i \<Longrightarrow> sint i \<le> sint n \<Longrightarrow>
   Eval_loop lambda n i s = fold (\<lambda>k. lambda (of_nat k)) [nat (sint i)..<nat (sint n)] s"
proof (induction lambda n i s rule: Eval_loop.induct)
  case (1 lambda n i s)
  show ?case
  proof (cases "i <s n")
    case True
    then have lt: "sint i < sint n" by (simp add: word_sless_alt)
    have suc: "sint (i + 1) = sint i + 1" by (rule sint_succ_sless [OF True])
    have a: "nat (sint (i + 1)) = Suc (nat (sint i))"
      using "1.prems"(1) suc by linarith
    have b: "nat (sint i) < nat (sint n)"
      using lt "1.prems"(1) by linarith
    have upt: "[nat (sint i)..<nat (sint n)] = nat (sint i) # [nat (sint (i + 1))..<nat (sint n)]"
      unfolding a by (rule upt_conv_Cons [OF b])
    have "Eval_loop lambda n i s = Eval_loop lambda n (i + 1) (lambda i s)"
      using True by (subst Eval_loop.simps) simp
    also have "\<dots> = fold (\<lambda>k. lambda (of_nat k)) [nat (sint (i + 1))..<nat (sint n)] (lambda i s)"
      using "1.IH" [OF True] lt "1.prems"(1) by (simp add: suc)
    also have "\<dots> = fold (\<lambda>k. lambda (of_nat k)) [nat (sint i)..<nat (sint n)] s"
      using "1.prems"(1) by (simp add: upt)
    finally show ?thesis .
  next
    case False
    then have "sint i = sint n" using "1.prems"(2) by (simp add: word_sless_alt)
    then show ?thesis using False by (subst Eval_loop.simps) simp
  qed
qed

lemma upt_nat_sint_step:
  fixes i n :: int32_t
  assumes "i <s n" and "0 \<le> sint i"
  shows "[nat (sint i)..<nat (sint n)] = nat (sint i) # [nat (sint (i + 1))..<nat (sint n)]"
proof -
  have lt: "sint i < sint n" using assms(1) by (simp add: word_sless_alt)
  have a: "nat (sint (i + 1)) = Suc (nat (sint i))"
    using assms(2) sint_succ_sless [OF assms(1)] by linarith
  have b: "nat (sint i) < nat (sint n)"
    using lt assms(2) by linarith
  show ?thesis unfolding a by (rule upt_conv_Cons [OF b])
qed

lemma Eval_data_loop_fold:
  "0 \<le> sint i \<Longrightarrow> sint i \<le> sint n \<Longrightarrow>
   Eval_data_loop lambda n i d s = fold (write_step lambda) [nat (sint i)..<nat (sint n)] (d, s)"
proof (induction lambda n i d s rule: Eval_data_loop.induct)
  case (1 lambda n i d s)
  show ?case
  proof (cases "i <s n")
    case True
    then have lt: "sint i < sint n" by (simp add: word_sless_alt)
    have suc: "sint (i + 1) = sint i + 1" by (rule sint_succ_sless [OF True])
    obtain v s' where l: "lambda i s = (v, s')" by (cases "lambda i s")
    have "Eval_data_loop lambda n i d s = Eval_data_loop lambda n (i + 1) (d(sint i := v)) s'"
      using True l by (subst Eval_data_loop.simps) simp
    also have "\<dots> = fold (write_step lambda) [nat (sint (i + 1))..<nat (sint n)] (d(sint i := v), s')"
    proof (rule "1.IH" [OF True refl l [symmetric]])
      show "0 \<le> sint (i + 1)" using "1.prems"(1) by (simp add: suc)
      show "sint (i + 1) \<le> sint n" using lt by (simp add: suc)
    qed
    also have "\<dots> = fold (write_step lambda) [nat (sint i)..<nat (sint n)] (d, s)"
      using "1.prems"(1) l by (simp add: upt_nat_sint_step [OF True "1.prems"(1)] write_step_def)
    finally show ?thesis .
  next
    case False
    then have "sint i = sint n" using "1.prems"(2) by (simp add: word_sless_alt)
    then show ?thesis using False by (subst Eval_data_loop.simps) simp
  qed
qed

lemma Eval2_inner_fold:
  "0 \<le> sint j \<Longrightarrow> sint j \<le> sint n \<Longrightarrow>
   Eval2_inner lambda n i j s = fold (\<lambda>k. lambda i (of_nat k)) [nat (sint j)..<nat (sint n)] s"
proof (induction lambda n i j s rule: Eval2_inner.induct)
  case (1 lambda n i j s)
  show ?case
  proof (cases "j <s n")
    case True
    then have lt: "sint j < sint n" by (simp add: word_sless_alt)
    have suc: "sint (j + 1) = sint j + 1" by (rule sint_succ_sless [OF True])
    have "Eval2_inner lambda n i j s = Eval2_inner lambda n i (j + 1) (lambda i j s)"
      using True by (subst Eval2_inner.simps) simp
    also have "\<dots> = fold (\<lambda>k. lambda i (of_nat k)) [nat (sint (j + 1))..<nat (sint n)] (lambda i j s)"
      using "1.IH" [OF True] lt "1.prems"(1) by (simp add: suc)
    also have "\<dots> = fold (\<lambda>k. lambda i (of_nat k)) [nat (sint j)..<nat (sint n)] s"
      using "1.prems"(1) by (simp add: upt_nat_sint_step [OF True "1.prems"(1)])
    finally show ?thesis .
  next
    case False
    then have "sint j = sint n" using "1.prems"(2) by (simp add: word_sless_alt)
    then show ?thesis using False by (subst Eval2_inner.simps) simp
  qed
qed

lemma Eval2_outer_fold:
  "0 \<le> sint i \<Longrightarrow> sint i \<le> sint m \<Longrightarrow> 0 \<le> sint n \<Longrightarrow>
   Eval2_outer lambda m n i s =
     fold (\<lambda>a. fold (\<lambda>b. lambda (of_nat a) (of_nat b)) [0..<nat (sint n)])
       [nat (sint i)..<nat (sint m)] s"
proof (induction lambda m n i s rule: Eval2_outer.induct)
  case (1 lambda m n i s)
  let ?row = "\<lambda>a. fold (\<lambda>b. lambda (of_nat a) (of_nat b)) [0..<nat (sint n)]"
  show ?case
  proof (cases "i <s m")
    case True
    then have lt: "sint i < sint m" by (simp add: word_sless_alt)
    have suc: "sint (i + 1) = sint i + 1" by (rule sint_succ_sless [OF True])
    have inner: "Eval2_inner lambda n i 0 s = ?row (nat (sint i)) s"
      using Eval2_inner_fold [of 0 n lambda i s] "1.prems"(1,3) by simp
    have "Eval2_outer lambda m n i s = Eval2_outer lambda m n (i + 1) (Eval2_inner lambda n i 0 s)"
      using True by (subst Eval2_outer.simps) simp
    also have "\<dots> = fold ?row [nat (sint (i + 1))..<nat (sint m)] (Eval2_inner lambda n i 0 s)"
      using "1.IH" [OF True] lt "1.prems"(1,3) by (simp add: suc)
    also have "\<dots> = fold ?row [nat (sint i)..<nat (sint m)] s"
      by (simp add: upt_nat_sint_step [OF True "1.prems"(1)] inner)
    finally show ?thesis .
  next
    case False
    then have "sint i = sint m" using "1.prems"(2) by (simp add: word_sless_alt)
    then show ?thesis using False by (subst Eval2_outer.simps) simp
  qed
qed

lemma fold_product:
  "fold (\<lambda>(a, b). f a b) (List.product xs ys) s = fold (\<lambda>a. fold (\<lambda>b. f a b) ys) xs s"
proof (induction xs arbitrary: s)
  case Nil
  show ?case by simp
next
  case (Cons x xs)
  have "fold (\<lambda>(a, b). f a b) (map (Pair x) ys) s = fold (\<lambda>b. f x b) ys s"
    by (simp add: fold_map comp_def)
  then show ?case using Cons.IH by simp
qed

lemma fold_snoc_trace:
  "fold (\<lambda>k tr. tr @ [g k]) xs tr0 = tr0 @ map g xs"
  by (induction xs arbitrary: tr0) simp_all

lemma fold_write_step_pure:
  "fold (write_step (\<lambda>i t. (f i, t))) [0..<N] (d, t)
     = (\<lambda>k. if 0 \<le> k \<and> k < int N then f (of_nat (nat k)) else d k, t)"
proof (induction N)
  case 0
  show ?case by (auto simp: fun_eq_iff)
next
  case (Suc N)
  have "(\<lambda>k. if 0 \<le> k \<and> k < int N then f (of_nat (nat k)) else d k)(int N := f (of_nat N))
      = (\<lambda>k. if 0 \<le> k \<and> k < int (Suc N) then f (of_nat (nat k)) else d k)"
    by (rule ext) auto
  then show ?case using Suc.IH by (simp add: write_step_def)
qed

lemma sint_of_nat_small:
  fixes m :: int32_t
  assumes "a < nat (sint m)"
  shows "sint (of_nat a :: int32_t) = int a"
proof -
  have "sint m < 2 ^ 31" using sint_lt [of m] by simp
  then have "int a < 2 ^ 31" using assms by linarith
  moreover have "(of_nat a :: int32_t) = word_of_int (int a)" by simp
  ultimately show ?thesis
    by (simp only: sint_sbintrunc') (simp add: signed_take_bit_int_eq_self)
qed

lemma of_nat_inj_small:
  fixes m :: int32_t
  assumes "a < nat (sint m)" and "b < nat (sint m)"
    and "(of_nat a :: int32_t) = of_nat b"
  shows "a = b"
proof -
  have "sint (of_nat a :: int32_t) = sint (of_nat b :: int32_t)"
    using assms(3) by (rule arg_cong)
  then have "int a = int b"
    by (simp only: sint_of_nat_small [OF assms(1)] sint_of_nat_small [OF assms(2)])
  then show ?thesis by (simp only: of_nat_eq_iff)
qed

lemma distinct_index_pairs:
  fixes m n :: int32_t
  shows "distinct (map index_pair (List.product [0..<nat (sint m)] [0..<nat (sint n)]))"
proof -
  have "inj_on index_pair (set (List.product [0..<nat (sint m)] [0..<nat (sint n)]))"
  proof (rule inj_onI)
    fix p q :: "nat \<times> nat"
    assume p: "p \<in> set (List.product [0..<nat (sint m)] [0..<nat (sint n)])"
      and q: "q \<in> set (List.product [0..<nat (sint m)] [0..<nat (sint n)])"
      and e: "index_pair p = index_pair q"
    have b: "fst p < nat (sint m)" "snd p < nat (sint n)" "fst q < nat (sint m)"
      "snd q < nat (sint n)"
      using p q by auto
    have "(of_nat (fst p) :: int32_t) = of_nat (fst q)"
      and "(of_nat (snd p) :: int32_t) = of_nat (snd q)"
      using e by (simp_all only: index_pair_def prod.inject)
    then have "fst p = fst q" "snd p = snd q"
      using of_nat_inj_small [OF b(1) b(3)] of_nat_inj_small [OF b(2) b(4)] by blast+
    then show "p = q" by (rule prod_eqI)
  qed
  then show ?thesis by (simp add: distinct_map distinct_product)
qed

lemma set_index_pairs:
  fixes m n :: int32_t
  shows "set (map index_pair (List.product [0..<nat (sint m)] [0..<nat (sint n)]))
     = {(i, j). 0 \<le>s i \<and> i <s m \<and> 0 \<le>s j \<and> j <s n}"
proof (rule set_eqI)
  fix p :: "int32_t \<times> int32_t"
  obtain i j where p: "p = (i, j)" by (cases p)
  show "p \<in> set (map index_pair (List.product [0..<nat (sint m)] [0..<nat (sint n)]))
    \<longleftrightarrow> p \<in> {(i, j). 0 \<le>s i \<and> i <s m \<and> 0 \<le>s j \<and> j <s n}"
  proof
    assume "p \<in> set (map index_pair (List.product [0..<nat (sint m)] [0..<nat (sint n)]))"
    then obtain a b where ab: "a < nat (sint m)" "b < nat (sint n)"
      and ij: "i = of_nat a" "j = of_nat b"
      by (auto simp: p index_pair_def)
    have "sint i = int a" "sint j = int b"
      using sint_of_nat_small [OF ab(1)] sint_of_nat_small [OF ab(2)] ij by simp_all
    moreover have "int a < sint m" "int b < sint n"
      using ab by linarith+
    ultimately show "p \<in> {(i, j). 0 \<le>s i \<and> i <s m \<and> 0 \<le>s j \<and> j <s n}"
      by (simp add: p word_sless_alt word_sle_eq)
  next
    assume "p \<in> {(i, j). 0 \<le>s i \<and> i <s m \<and> 0 \<le>s j \<and> j <s n}"
    then have r: "0 \<le> sint i" "sint i < sint m" "0 \<le> sint j" "sint j < sint n"
      by (simp_all add: p word_sless_alt word_sle_eq)
    have eq: "index_pair (nat (sint i), nat (sint j)) = (i, j)"
      using r by (simp add: index_pair_def)
    have "nat (sint i) < nat (sint m)" "nat (sint j) < nat (sint n)"
      using r by linarith+
    then have "(nat (sint i), nat (sint j))
        \<in> set (List.product [0..<nat (sint m)] [0..<nat (sint n)])"
      by simp
    then have "index_pair (nat (sint i), nat (sint j))
        \<in> index_pair ` set (List.product [0..<nat (sint m)] [0..<nat (sint n)])"
      by (rule imageI)
    then show "p \<in> set (map index_pair (List.product [0..<nat (sint m)] [0..<nat (sint n)]))"
      unfolding p set_map eq .
  qed
qed

lemma Eval_host:
  "Eval launch kCudaStreamInvalid n lambda s
     = Inr (fold (\<lambda>k. lambda (of_nat k)) [0..<nat (sint n)] s)"
proof (cases "n \<le>s 0")
  case True
  then have "nat (sint n) = 0" by (simp add: word_sle_eq)
  then show ?thesis using True by (simp add: Eval_def)
next
  case False
  then have "0 \<le> sint n" by (simp add: word_sle_eq)
  then show ?thesis using False Eval_loop_fold [of 0 n lambda s] by (simp add: Eval_def)
qed

lemma Eval_data_host:
  "Eval_data launch kCudaStreamInvalid d n lambda s
     = Inr (fold (write_step lambda) [0..<nat (sint n)] (d, s))"
proof (cases "n \<le>s 0")
  case True
  then have "nat (sint n) = 0" by (simp add: word_sle_eq)
  then show ?thesis using True by (simp add: Eval_data_def)
next
  case False
  then have "0 \<le> sint n" by (simp add: word_sle_eq)
  then show ?thesis
    using False Eval_data_loop_fold [of 0 n lambda d s] by (simp add: Eval_data_def)
qed

lemma product_Nil_right:
  "List.product xs [] = []"
  by (induction xs) simp_all

lemma upt_0_5:
  "[0..<5] = [0, 1, 2, 3, 4]"
  by (simp add: upt_rec)

lemma Eval2_host:
  "Eval2 launch kCudaStreamInvalid m n lambda s
     = Inr (fold (\<lambda>(a, b). lambda (of_nat a) (of_nat b))
         (List.product [0..<nat (sint m)] [0..<nat (sint n)]) s)"
proof (cases "m \<le>s 0 \<or> n \<le>s 0")
  case True
  then have "nat (sint m) = 0 \<or> nat (sint n) = 0" by (auto simp: word_sle_eq)
  then have "List.product [0..<nat (sint m)] [0..<nat (sint n)] = []"
    by (auto simp: product_Nil_right)
  then show ?thesis using True by (simp add: Eval2_def)
next
  case False
  then have "0 \<le> sint m" "0 \<le> sint n" by (simp_all add: word_sle_eq)
  then have "Eval2_outer lambda m n 0 s
      = fold (\<lambda>a. fold (\<lambda>b. lambda (of_nat a) (of_nat b)) [0..<nat (sint n)])
          [0..<nat (sint m)] s"
    using Eval2_outer_fold [of 0 m n lambda s] by simp
  then show ?thesis using False by (simp add: Eval2_def fold_product)
qed

text \<open>
  C6. On the host sentinel \<open>Eval\<close> applies the lambda to the indices 0, 1, ..., n - 1 in
  this order, once each: the state it returns is the fold of the lambda over the ascending
  index list, and a lambda that appends its argument to a list leaves that very list. The
  form with \<open>data\<close> does the same with \<open>data[i] = lambda(i)\<close> as the step, so for a
  lambda without effects the array holds \<open>f i\<close> at every offset \<open>i\<close> in \<open>[0, n)\<close> and is
  unchanged elsewhere. The forms that take a context agree when the stream of the context
  is the sentinel.
\<close>

theorem Eval_host_ascending:
  "Eval launch kCudaStreamInvalid n lambda s
     = Inr (fold (\<lambda>k. lambda (of_nat k)) [0..<nat (sint n)] s) \<and>
   Eval tlaunch kCudaStreamInvalid n (\<lambda>i tr. tr @ [i]) []
     = Inr (map of_nat [0..<nat (sint n)]) \<and>
   Eval_data dlaunch kCudaStreamInvalid d n dlambda t
     = Inr (fold (write_step dlambda) [0..<nat (sint n)] (d, t)) \<and>
   Eval_data plaunch kCudaStreamInvalid d n (\<lambda>i u. (f i, u)) u
     = Inr (\<lambda>k. if 0 \<le> k \<and> k < sint n then f (of_nat (nat k)) else d k, u) \<and>
   (GetCudaStream c = kCudaStreamInvalid \<longrightarrow>
      Eval_ctx launch c n lambda s
        = Inr (fold (\<lambda>k. lambda (of_nat k)) [0..<nat (sint n)] s) \<and>
      Eval_data_ctx dlaunch c d n dlambda t
        = Inr (fold (write_step dlambda) [0..<nat (sint n)] (d, t)))"
proof -
  have "(\<lambda>k. if 0 \<le> k \<and> k < int (nat (sint n)) then f (of_nat (nat k)) else d k)
      = (\<lambda>k. if 0 \<le> k \<and> k < sint n then f (of_nat (nat k)) else d k)"
    by (rule ext) auto
  then show ?thesis
    by (simp add: Eval_host Eval_data_host Eval_ctx_def Eval_data_ctx_def fold_snoc_trace
        fold_write_step_pure)
qed

theorem Eval_host_ascending_witness:
  "Eval (\<lambda>g b st n l s. (1, s)) kCudaStreamInvalid 5 (\<lambda>i tr. tr @ [i]) [] = Inr [0, 1, 2, 3, 4] \<and>
   Eval (\<lambda>g b st n l s. (1, s)) kCudaStreamInvalid 5
     (\<lambda>i buf. buf[nat (sint i) := i * i]) [7, 7, 7, 7, 7] = Inr [0, 1, 4, 9, 16] \<and>
   map_sum id (\<lambda>r. map (fst r) [0, 1, 2, 3, 4, 5])
     (Eval_data (\<lambda>g b st d n l s. (1, d, s)) kCudaStreamInvalid (\<lambda>k. 7) 5
        (\<lambda>i tr. (i * i, tr @ [i])) [])
     = Inr [0, 1, 4, 9, 16, 7] \<and>
   map_sum id snd
     (Eval_data_ctx (\<lambda>g b st d n l s. (1, d, s)) (example_context kCpu) (\<lambda>k. 7 :: int32_t) 5
        (\<lambda>i tr. (i * i, tr @ [i])) [])
     = Inr [0, 1, 2, 3, 4]"
  using Eval_host_ascending [of "\<lambda>g b st n l s. (1, s)" 5 "\<lambda>i tr. tr @ [i]" "[]"
      "\<lambda>g b st n l s. (1, s)" "\<lambda>g b st d n l s. (1, d, s)" "\<lambda>k. 7 :: int32_t"
      "\<lambda>i tr. (i * i, tr @ [i])" "[]" "\<lambda>g b st d n l s. (1, d, s)" "\<lambda>i. i * i" "()"
      "example_context kCpu"]
    Eval_host_ascending [of "\<lambda>g b st n l s. (1, s)" 5 "\<lambda>i buf. buf[nat (sint i) := i * i]"
      "[7, 7, 7, 7, 7]"
      "\<lambda>g b st n l s. (1, s)" "\<lambda>g b st d n l s. (1, d, s)" "\<lambda>k. 7 :: int32_t"
      "\<lambda>i tr. (i * i, tr @ [i])" "[]" "\<lambda>g b st d n l s. (1, d, s)" "\<lambda>i. i * i" "()"
      "example_context kCpu"]
  by (simp add: example_context_def write_step_def upt_0_5)

lemma fold_pair_trace:
  "fold (\<lambda>(a, b) tr. tr @ [(of_nat a :: int32_t, of_nat b :: int32_t)]) xs tr0
     = tr0 @ map index_pair xs"
proof -
  have "(\<lambda>(a, b) tr. tr @ [(of_nat a :: int32_t, of_nat b :: int32_t)])
      = (\<lambda>p tr. tr @ [index_pair p])"
    by (auto simp: fun_eq_iff index_pair_def)
  then show ?thesis by (simp only: fold_snoc_trace)
qed

text \<open>
  C7. On the host sentinel \<open>Eval2\<close> applies the lambda to the pairs of \<open>[0, m) \<times> [0, n)\<close>
  in row order, the second index varying fastest: the state it returns is the fold over
  the product list, the list of calls a recording lambda leaves has no repetition, and its
  elements are exactly the pairs \<open>(i, j)\<close> with \<open>0 \<le> i < m\<close> and \<open>0 \<le> j < n\<close>.
\<close>

theorem Eval2_host_pairs:
  "Eval2 launch kCudaStreamInvalid m n lambda s
     = Inr (fold (\<lambda>(a, b). lambda (of_nat a) (of_nat b))
         (List.product [0..<nat (sint m)] [0..<nat (sint n)]) s) \<and>
   Eval2 tlaunch kCudaStreamInvalid m n (\<lambda>i j tr. tr @ [(i, j)]) []
     = Inr (map index_pair (List.product [0..<nat (sint m)] [0..<nat (sint n)])) \<and>
   distinct (map index_pair (List.product [0..<nat (sint m)] [0..<nat (sint n)])) \<and>
   set (map index_pair (List.product [0..<nat (sint m)] [0..<nat (sint n)]))
     = {(i, j). 0 \<le>s i \<and> i <s m \<and> 0 \<le>s j \<and> j <s n} \<and>
   (GetCudaStream c = kCudaStreamInvalid \<longrightarrow>
      Eval2_ctx launch c m n lambda s
        = Inr (fold (\<lambda>(a, b). lambda (of_nat a) (of_nat b))
            (List.product [0..<nat (sint m)] [0..<nat (sint n)]) s))"
  by (simp add: Eval2_host Eval2_ctx_def fold_pair_trace distinct_index_pairs set_index_pairs
      del: set_map set_product)

theorem Eval2_host_pairs_witness:
  "Eval2 (\<lambda>g b st m n l s. (1, s)) kCudaStreamInvalid 2 3 (\<lambda>i j tr. tr @ [(i, j)]) []
     = Inr [(0, 0), (0, 1), (0, 2), (1, 0), (1, 1), (1, 2)] \<and>
   Eval2_ctx (\<lambda>g b st m n l s. (1, s)) (example_context kCpu) 2 3
     (\<lambda>i j tr. tr @ [(i, j)]) []
     = Inr [(0, 0), (0, 1), (0, 2), (1, 0), (1, 1), (1, 2)] \<and>
   distinct [(0, 0), (0, 1), (0, 2), (1, 0), (1, 1), (1 :: int32_t, 2 :: int32_t)]"
proof -
  have e: "[0..<2] = [0, 1]" "[0..<3] = [0, 1, 2]"
    by (simp_all add: upt_rec)
  show ?thesis
    using Eval2_host_pairs [of "\<lambda>g b st m n l s. (1, s)" 2 3 "\<lambda>i j tr. tr @ [(i, j)]" "[]"
        "\<lambda>g b st m n l s. (1, s)" "example_context kCpu"]
    by (simp add: example_context_def index_pair_def e del: set_map set_product)
qed

text \<open>
  C8. For \<open>n \<le> 0\<close> both forms of \<open>Eval\<close>, with a stream or with a context, return at
  once: the state, and the array, are the ones passed in, whatever the stream, the lambda
  and the kernel launch are. The same holds for \<open>Eval2\<close> when \<open>m \<le> 0\<close> or \<open>n \<le> 0\<close>.
\<close>

theorem Eval_nonpositive_noop:
  "(n \<le>s 0 \<longrightarrow>
      Eval launch stream n lambda s = Inr s \<and>
      Eval_ctx launch c n lambda s = Inr s \<and>
      Eval_data dlaunch stream d n dlambda t = Inr (d, t) \<and>
      Eval_data_ctx dlaunch c d n dlambda t = Inr (d, t)) \<and>
   (m \<le>s 0 \<or> n \<le>s 0 \<longrightarrow>
      Eval2 launch2 stream m n lambda2 u = Inr u \<and>
      Eval2_ctx launch2 c m n lambda2 u = Inr u)"
  by (simp add: Eval_def Eval_ctx_def Eval_data_def Eval_data_ctx_def Eval2_def Eval2_ctx_def)

theorem Eval_nonpositive_noop_witness:
  "Eval (\<lambda>g b st n l s. (1, s)) 0 0 (\<lambda>i tr. tr @ [i]) [] = Inr [] \<and>
   Eval (\<lambda>g b st n l s. (1, s)) 0 (- 1) (\<lambda>i tr. tr @ [i]) [] = Inr [] \<and>
   Eval_ctx (\<lambda>g b st n l s. (1, s)) (example_context kCuda) 0 (\<lambda>i tr. tr @ [i]) [] = Inr [] \<and>
   Eval_ctx (\<lambda>g b st n l s. (1, s)) (example_context kCuda) (- 1) (\<lambda>i tr. tr @ [i]) [] = Inr [] \<and>
   map_sum id snd
     (Eval_data (\<lambda>g b st d n l s. (1, d, s)) 0 (\<lambda>k. 7 :: int32_t) (- 1)
        (\<lambda>i tr. (i, tr @ [i])) []) = Inr [] \<and>
   Eval2 (\<lambda>g b st m n l s. (1, s)) 0 3 0 (\<lambda>i j tr. tr @ [(i, j)]) [] = Inr [] \<and>
   Eval2 (\<lambda>g b st m n l s. (1, s)) 0 0 3 (\<lambda>i j tr. tr @ [(i, j)]) [] = Inr [] \<and>
   Eval2_ctx (\<lambda>g b st m n l s. (1, s)) (example_context kCuda) 3 (- 1)
     (\<lambda>i j tr. tr @ [(i, j)]) [] = Inr []"
  using Eval_nonpositive_noop [where n = 0 and m = 3 and stream = 0
      and c = "example_context kCuda"
      and launch = "\<lambda>g b st n l s. (1, s)" and lambda = "\<lambda>i tr. tr @ [i]" and s = "[]"
      and dlaunch = "\<lambda>g b st d n l s. (1, d, s)" and d = "\<lambda>k. 7 :: int32_t"
      and dlambda = "\<lambda>i tr. (i, tr @ [i])" and t = "[]"
      and ?launch2.0 = "\<lambda>g b st m n l s. (1, s)" and ?lambda2.0 = "\<lambda>i j tr. tr @ [(i, j)]"
      and u = "[]"]
    Eval_nonpositive_noop [where n = "- 1" and m = 3 and stream = 0
      and c = "example_context kCuda"
      and launch = "\<lambda>g b st n l s. (1, s)" and lambda = "\<lambda>i tr. tr @ [i]" and s = "[]"
      and dlaunch = "\<lambda>g b st d n l s. (1, d, s)" and d = "\<lambda>k. 7 :: int32_t"
      and dlambda = "\<lambda>i tr. (i, tr @ [i])" and t = "[]"
      and ?launch2.0 = "\<lambda>g b st m n l s. (1, s)" and ?lambda2.0 = "\<lambda>i j tr. tr @ [(i, j)]"
      and u = "[]"]
    Eval_nonpositive_noop [where n = 3 and m = 0 and stream = 0
      and c = "example_context kCuda"
      and launch = "\<lambda>g b st n l s. (1, s)" and lambda = "\<lambda>i tr. tr @ [i]" and s = "[]"
      and dlaunch = "\<lambda>g b st d n l s. (1, d, s)" and d = "\<lambda>k. 7 :: int32_t"
      and dlambda = "\<lambda>i tr. (i, tr @ [i])" and t = "[]"
      and ?launch2.0 = "\<lambda>g b st m n l s. (1, s)" and ?lambda2.0 = "\<lambda>i j tr. tr @ [(i, j)]"
      and u = "[]"]
  by (simp add: example_context_def word_sle_eq)

subsection \<open>Region::Extend\<close>

text \<open>
  The rounding loops on powers of two. Started at \<open>2 ^ a\<close>, the first loop stops at a
  power of two that is \<open>2 ^ a\<close> itself or at most \<open>new_size\<close>; the second loop, when
  \<open>new_size \<le> 2 ^ 63\<close>, stops at the first power of two from there on that is at least
  \<open>new_size\<close>, and when \<open>new_size > 2 ^ 63\<close> it reaches 0 and runs forever.
\<close>

lemma unat_pow2:
  assumes "b < 64"
  shows "unat (2 ^ b :: size_t) = 2 ^ b"
proof -
  have "(2 ^ b :: size_t) = of_nat (2 ^ b)" by simp
  moreover have "(2::nat) ^ b < 2 ^ 64"
    by (rule power_strict_increasing) (use assms in simp_all)
  ultimately show ?thesis
    by (simp only: unat_of_nat) simp
qed

lemma push_bit_pow2:
  "push_bit k (2 ^ a :: size_t) = 2 ^ (a + k)"
  by (simp add: push_bit_eq_mult power_add)

lemma pow2_le_imp_lt_64:
  assumes "(2::nat) ^ a \<le> x" and "x < 2 ^ 64"
  shows "a < 64"
proof (rule ccontr)
  assume "\<not> a < 64"
  then have "64 \<le> a" by simp
  then have "(2::nat) ^ 64 \<le> 2 ^ a" by (rule power_increasing) simp
  then show False using assms by linarith
qed

lemma Extend_loop8_pow2:
  "a < 64 \<Longrightarrow>
   \<exists>b. Extend_loop8 (2 ^ a) ns = Some (2 ^ b) \<and> a \<le> b \<and> b < 64 \<and> (b = a \<or> 2 ^ b \<le> unat ns)"
proof (induction "64 - a" arbitrary: a rule: less_induct)
  case less
  show ?case
  proof (cases "(2 ^ a :: size_t) < ns div 8")
    case True
    then have "(2::nat) ^ a < unat ns div 8"
      by (simp add: word_less_nat_alt unat_div unat_pow2 [OF less.prems])
    then have "(2::nat) ^ a * 8 \<le> unat ns" by linarith
    then have le: "(2::nat) ^ (a + 3) \<le> unat ns" by (simp add: power_add)
    have "unat ns < 2 ^ 64" using unsigned_less [of ns] by simp
    then have a3: "a + 3 < 64" using le by (rule pow2_le_imp_lt_64 [rotated 1])
    then have "64 - (a + 3) < 64 - a" by simp
    from less.hyps [OF this a3]
    obtain b where b: "Extend_loop8 (2 ^ (a + 3)) ns = Some (2 ^ b)" "a + 3 \<le> b" "b < 64"
      "b = a + 3 \<or> 2 ^ b \<le> unat ns"
      by blast
    have "Extend_loop8 (2 ^ a) ns = Extend_loop8 (2 ^ (a + 3)) ns"
      using True by (subst Extend_loop8.simps) (simp add: push_bit_pow2)
    moreover have "2 ^ b \<le> unat ns" using b(4) le by auto
    ultimately show ?thesis using b by auto
  next
    case False
    then have "Extend_loop8 (2 ^ a) ns = Some (2 ^ a)"
      by (subst Extend_loop8.simps) simp
    then show ?thesis using less.prems by auto
  qed
qed


lemma Extend_loop2_pow2:
  "b < 64 \<Longrightarrow> unat ns \<le> 2 ^ 63 \<Longrightarrow>
   \<exists>c. Extend_loop2 (2 ^ b) ns = Some (2 ^ c) \<and> b \<le> c \<and> c < 64 \<and> unat ns \<le> 2 ^ c \<and>
     (c = b \<or> 2 ^ (c - 1) < unat ns)"
proof (induction "64 - b" arbitrary: b rule: less_induct)
  case less
  show ?case
  proof (cases "(2 ^ b :: size_t) < ns")
    case True
    then have lt: "(2::nat) ^ b < unat ns"
      by (simp add: word_less_nat_alt unat_pow2 [OF less.prems(1)])
    then have "(2::nat) ^ b < 2 ^ 63" using less.prems(2) by linarith
    then have "b < 63" by (rule power_less_imp_less_exp [rotated 1]) simp
    then have b1: "b + 1 < 64" by simp
    then have "64 - (b + 1) < 64 - b" by simp
    from less.hyps [OF this b1 less.prems(2)]
    obtain c where c: "Extend_loop2 (2 ^ (b + 1)) ns = Some (2 ^ c)" "b + 1 \<le> c" "c < 64"
      "unat ns \<le> 2 ^ c" "c = b + 1 \<or> 2 ^ (c - 1) < unat ns"
      by blast
    have "Extend_loop2 (2 ^ b) ns = Extend_loop2 (2 ^ (b + 1)) ns"
      using True by (subst Extend_loop2.simps) (simp add: push_bit_pow2)
    moreover have "2 ^ (c - 1) < unat ns" using c(5) lt by auto
    ultimately show ?thesis using c by auto
  next
    case False
    then have "unat ns \<le> 2 ^ b"
      by (simp add: word_less_nat_alt unat_pow2 [OF less.prems(1)])
    moreover have "Extend_loop2 (2 ^ b) ns = Some (2 ^ b)"
      using False by (subst Extend_loop2.simps) simp
    ultimately show ?thesis using less.prems(1) by auto
  qed
qed

lemma Extend_loop2_result_ge:
  assumes h: "Extend_loop2 i ns = Some y"
  shows "ns \<le> y"
proof (rule Extend_loop2.raw_induct [where P = "\<lambda>i ns y. ns \<le> y", OF _ h])
  fix loop2 :: "size_t \<Rightarrow> size_t \<Rightarrow> size_t option" and i ns y :: size_t
  assume IH: "\<And>i ns y. loop2 i ns = Some y \<Longrightarrow> ns \<le> y"
    and step: "(if i < ns then loop2 (push_bit 1 i) ns else Some i) = Some y"
  show "ns \<le> y"
  proof (cases "i < ns")
    case True
    then show ?thesis using step IH by simp
  next
    case False
    then show ?thesis using step by simp
  qed
qed

lemma Extend_loop2_diverges_aux:
  assumes h: "Extend_loop2 i ns = Some y"
  shows "\<not> (2 ^ 63 < unat ns \<and> (i = 0 \<or> (\<exists>b<64. i = 2 ^ b)))"
proof (rule Extend_loop2.raw_induct
    [where P = "\<lambda>i ns y. \<not> (2 ^ 63 < unat ns \<and> (i = 0 \<or> (\<exists>b<64. i = 2 ^ b)))", OF _ h])
  fix loop2 :: "size_t \<Rightarrow> size_t \<Rightarrow> size_t option" and i ns y :: size_t
  assume IH: "\<And>i ns y. loop2 i ns = Some y \<Longrightarrow>
      \<not> (2 ^ 63 < unat ns \<and> (i = 0 \<or> (\<exists>b<64. i = 2 ^ b)))"
    and step: "(if i < ns then loop2 (push_bit 1 i) ns else Some i) = Some y"
  show "\<not> (2 ^ 63 < unat ns \<and> (i = 0 \<or> (\<exists>b<64. i = 2 ^ b)))"
  proof
    assume a: "2 ^ 63 < unat ns \<and> (i = 0 \<or> (\<exists>b<64. i = 2 ^ b))"
    then have big: "2 ^ 63 < unat ns" by simp
    have lt: "i < ns"
    proof (cases "i = 0")
      case True
      then show ?thesis using big by (simp add: word_less_nat_alt)
    next
      case False
      then obtain b where b: "b < 64" "i = 2 ^ b" using a by blast
      have "(2::nat) ^ b \<le> 2 ^ 63"
        by (rule power_increasing) (use b in simp_all)
      then show ?thesis using big b by (simp add: word_less_nat_alt unat_pow2)
    qed
    have next_i: "push_bit 1 i = 0 \<or> (\<exists>b<64. push_bit 1 i = 2 ^ b)"
    proof (cases "i = 0")
      case True
      then show ?thesis by simp
    next
      case False
      then obtain b where b: "b < 64" "i = 2 ^ b" using a by blast
      show ?thesis
      proof (cases "b + 1 < 64")
        case True
        have "push_bit 1 i = 2 ^ (b + 1)" using b by (simp only: push_bit_pow2)
        then show ?thesis using True by blast
      next
        case False
        then have "b + 1 = 64" using b by simp
        then have "push_bit 1 i = (2 ^ 64 :: size_t)" using b by (simp add: push_bit_pow2)
        then show ?thesis by simp
      qed
    qed
    from step lt have "loop2 (push_bit 1 i) ns = Some y" by simp
    from IH [OF this] big next_i show False by blast
  qed
qed

lemma Extend_loop2_diverges:
  assumes "2 ^ 63 < unat ns" and "b < 64"
  shows "Extend_loop2 (2 ^ b) ns = None"
proof (cases "Extend_loop2 (2 ^ b) ns")
  case None
  then show ?thesis .
next
  case (Some y)
  from Extend_loop2_diverges_aux [OF this] assms show ?thesis by blast
qed


lemma Extend_new_size_least_pow2:
  assumes "unat (max (nb * 2) n) \<le> 2 ^ 63"
  shows "\<exists>c<64. Extend_new_size nb n = Some (2 ^ c) \<and>
     least_pow2_ge (2 ^ c) (max 4 (unat (max (nb * 2) n)))"
proof -
  let ?ns = "max (nb * 2) n"
  have four: "(4 :: size_t) = 2 ^ 2" by simp
  obtain b where b: "Extend_loop8 (2 ^ 2) ?ns = Some (2 ^ b)" "2 \<le> b" "b < 64"
    "b = 2 \<or> 2 ^ b \<le> unat ?ns"
    using Extend_loop8_pow2 [of 2 ?ns] by auto
  obtain c where c: "Extend_loop2 (2 ^ b) ?ns = Some (2 ^ c)" "b \<le> c" "c < 64"
    "unat ?ns \<le> 2 ^ c" "c = b \<or> 2 ^ (c - 1) < unat ?ns"
    using Extend_loop2_pow2 [OF b(3) assms] by auto
  have run: "Extend_new_size nb n = Some (2 ^ c)"
    using b(1) c(1) by (simp add: Extend_new_size_def Let_def four del: power_numeral)
  have c2: "2 \<le> c" using b(2) c(2) by simp
  then have ge4: "(4::nat) \<le> 2 ^ c"
    using power_increasing [of 2 c "2::nat"] by simp
  have least: "2 ^ c \<le> (2::nat) ^ j" if j: "max 4 (unat ?ns) \<le> 2 ^ j" for j
  proof -
    have j4: "(2::nat) ^ 2 \<le> 2 ^ j" and jn: "unat ?ns \<le> 2 ^ j" using j by simp_all
    have "c \<le> j"
    proof (cases "c = b")
      case True
      show ?thesis
      proof (cases "b = 2")
        case True
        then show ?thesis using j4 \<open>c = b\<close> by (simp add: power_increasing_iff del: power_numeral)
      next
        case False
        then have "(2::nat) ^ b \<le> 2 ^ j" using b(4) jn by linarith
        then show ?thesis using \<open>c = b\<close> by (simp add: power_increasing_iff)
      qed
    next
      case False
      then have "(2::nat) ^ (c - 1) < 2 ^ j" using c(5) jn by linarith
      then have "c - 1 < j" by (simp add: power_strict_increasing_iff)
      then show ?thesis by simp
    qed
    then show ?thesis by (simp add: power_increasing_iff)
  qed
  have "least_pow2_ge (2 ^ c) (max 4 (unat ?ns))"
    unfolding least_pow2_ge_def using ge4 c(4) least by auto
  then show ?thesis using run c(3) by blast
qed

lemma Extend_new_size_diverges:
  assumes "2 ^ 63 < unat (max (nb * 2) n)"
  shows "Extend_new_size nb n = None"
proof -
  let ?ns = "max (nb * 2) n"
  have four: "(4 :: size_t) = 2 ^ 2" by simp
  obtain b where b: "Extend_loop8 (2 ^ 2) ?ns = Some (2 ^ b)" "b < 64"
    using Extend_loop8_pow2 [of 2 ?ns] by auto
  have "Extend_loop2 (2 ^ b) ?ns = None"
    by (rule Extend_loop2_diverges [OF assms b(2)])
  then show ?thesis
    using b(1) by (simp add: Extend_new_size_def Let_def four del: power_numeral)
qed

lemma Extend_new_size_ge:
  assumes "Extend_new_size nb n = Some cap"
  shows "n \<le> cap"
proof -
  obtain i where "Extend_loop2 i (max (nb * 2) n) = Some cap"
    using assms by (auto simp: Extend_new_size_def Let_def split: option.splits)
  then have "max (nb * 2) n \<le> cap" by (rule Extend_loop2_result_ge)
  then show ?thesis by simp
qed


lemma copy_bytes_prefix:
  "k < count \<Longrightarrow> copy_bytes dst src count m (dst + k) = m (src + k)"
  by (simp add: copy_bytes_def)

lemma copy_bytes_outside:
  "\<not> a - dst < count \<Longrightarrow> copy_bytes dst src count m a = m a"
  by (simp add: copy_bytes_def)

lemma GetMemoryCopyKind_same:
  "GetDeviceType c \<noteq> kUnk \<Longrightarrow>
   GetMemoryCopyKind c c =
     Inr (if GetDeviceType c = kCpu then MemcpyHostToHost else MemcpyDeviceToDevice)"
  by (cases "GetDeviceType c") (simp_all add: GetMemoryCopyKind_def)

lemma MemoryCopy_same_device:
  assumes "cudaMemcpy dst src count
      (if hostside then cudaMemcpyHostToHost else cudaMemcpyDeviceToDevice) m = (cudaSuccess, m')"
  shows "MemoryCopy cudaMemcpy dst src count
      (if hostside then MemcpyHostToHost else MemcpyDeviceToDevice) m = Inr m'"
  using assms by (cases hostside) (simp_all add: MemoryCopy_def copy_kind_mappings_def)

text \<open>
  C4. For \<open>b \<le> bytes_used\<close> the call \<open>Extend b\<close> returns with the region and the world as
  they were: \<open>bytes_used\<close>, \<open>num_bytes\<close>, the data pointer and the deleter context are
  unchanged, so are the bytes of memory and the bookkeeping of the allocator, and the log
  of calls has no new \<open>Allocate\<close>, copy or \<open>Deallocate\<close>.
\<close>

theorem Extend_noop:
  "b \<le> bytes_used r \<Longrightarrow> Extend cudaMemcpy r b w = Some (Inr (r, w))"
  by (simp add: Extend_def)

theorem Extend_noop_witness:
  "(5 :: size_t) \<le> bytes_used (example_region 10) \<and>
   Extend cudaMemcpy_ok (example_region 10) 5 example_world
     = Some (Inr (example_region 10, example_world)) \<and>
   Extend cudaMemcpy_ok (example_region 10) 10 example_world
     = Some (Inr (example_region 10, example_world))"
proof -
  have h: "(5 :: size_t) \<le> bytes_used (example_region 10)"
    and h': "(10 :: size_t) \<le> bytes_used (example_region 10)"
    by (simp_all add: example_region_def)
  show ?thesis
    using h Extend_noop [OF h, of cudaMemcpy_ok example_world]
      Extend_noop [OF h', of cudaMemcpy_ok example_world]
    by simp
qed

text \<open>
  C3. If \<open>bytes_used \<le> num_bytes\<close> holds before \<open>Extend\<close>, it holds for the region that
  \<open>Extend\<close> returns, for every argument and in each of the three branches. The no-op
  branch and the branch that claims the tail always return, with the region unchanged and
  with \<open>bytes_used\<close> set to the argument.
\<close>

theorem Extend_preserves_invariant:
  assumes "bytes_used r \<le> num_bytes r"
  shows "(\<forall>r' w'. Extend cudaMemcpy r n w = Some (Inr (r', w'))
            \<longrightarrow> bytes_used r' \<le> num_bytes r') \<and>
         (n \<le> bytes_used r \<longrightarrow> Extend cudaMemcpy r n w = Some (Inr (r, w))) \<and>
         (bytes_used r < n \<and> n \<le> num_bytes r
            \<longrightarrow> Extend cudaMemcpy r n w = Some (Inr (r\<lparr>bytes_used := n\<rparr>, w)))"
proof (intro conjI allI impI)
  fix r' w'
  assume run: "Extend cudaMemcpy r n w = Some (Inr (r', w'))"
  show "bytes_used r' \<le> num_bytes r'"
  proof (cases "n \<le> bytes_used r")
    case True
    then show ?thesis using assms run by (simp add: Extend_def)
  next
    case False
    show ?thesis
    proof (cases "num_bytes r < n")
      case False
      then show ?thesis using assms run \<open>\<not> n \<le> bytes_used r\<close> by (auto simp: Extend_def)
    next
      case True
      then obtain cap where cap: "Extend_new_size (num_bytes r) n = Some cap"
        and r': "num_bytes r' = cap" "bytes_used r' = n"
        using run \<open>\<not> n \<le> bytes_used r\<close>
        by (auto simp: Extend_def split: option.splits sum.splits prod.splits)
      show ?thesis using Extend_new_size_ge [OF cap] r' by simp
    qed
  qed
next
  assume "n \<le> bytes_used r"
  then show "Extend cudaMemcpy r n w = Some (Inr (r, w))" by (simp add: Extend_def)
next
  assume "bytes_used r < n \<and> n \<le> num_bytes r"
  then show "Extend cudaMemcpy r n w = Some (Inr (r\<lparr>bytes_used := n\<rparr>, w))"
    by (auto simp: Extend_def)
qed

text \<open>Runs of \<open>Extend\<close> on the example region.\<close>

lemma Extend_new_size_examples:
  "Extend_new_size 10 20 = Some 32"
  "Extend_new_size 0 1 = Some 4"
  "Extend_new_size 1 2 = Some 4"
  "Extend_new_size 32 33 = Some 64"
  "Extend_new_size 100 1000 = Some 1024"
  by (simp_all add: Extend_new_size_def Extend_loop8.simps Extend_loop2.simps)

lemma Extend_example_10_20:
  "Extend cudaMemcpy_ok (example_region 10) 20 example_world =
     Some (Inr
       (\<lparr>context = example_context kCpu, data = 0x2000, deleter_context = 0,
          num_bytes = 32, bytes_used = 20\<rparr>,
        \<lparr>mem = copy_bytes 0x2000 0x1000 10 (\<lambda>a. ucast a), allocator = 0x2020,
          calls = [Call_Allocate 32, Call_MemoryCopy 0x2000 0x1000 10 MemcpyHostToHost,
            Call_Deallocate 0x1000 0]\<rparr>))"
  by (simp add: Extend_def Extend_new_size_examples example_region_def example_world_def
      example_context_def bump_Allocate_def GetMemoryCopyKind_def MemoryCopy_def
      copy_kind_mappings_def cudaMemcpy_ok_def)


lemma Extend_example_0_1:
  "Extend cudaMemcpy_ok (example_region 0) 1 example_world =
     Some (Inr
       (\<lparr>context = example_context kCpu, data = 0x2000, deleter_context = 0,
          num_bytes = 4, bytes_used = 1\<rparr>,
        \<lparr>mem = copy_bytes 0x2000 0x1000 0 (\<lambda>a. ucast a), allocator = 0x2004,
          calls = [Call_Allocate 4, Call_MemoryCopy 0x2000 0x1000 0 MemcpyHostToHost,
            Call_Deallocate 0x1000 0]\<rparr>))"
  by (simp add: Extend_def Extend_new_size_examples example_region_def example_world_def
      example_context_def bump_Allocate_def GetMemoryCopyKind_def MemoryCopy_def
      copy_kind_mappings_def cudaMemcpy_ok_def)

lemma Extend_example_claim_tail:
  "Extend cudaMemcpy_ok ((example_region 10)\<lparr>bytes_used := 4\<rparr>) 7 example_world =
     Some (Inr ((example_region 10)\<lparr>bytes_used := 7\<rparr>, example_world))"
  by (simp add: Extend_def example_region_def)

theorem Extend_preserves_invariant_witness:
  "bytes_used (example_region 10) \<le> num_bytes (example_region 10) \<and>
   Extend cudaMemcpy_ok (example_region 10) 5 example_world
     = Some (Inr (example_region 10, example_world)) \<and>
   Extend cudaMemcpy_ok ((example_region 10)\<lparr>bytes_used := 4\<rparr>) 7 example_world
     = Some (Inr ((example_region 10)\<lparr>bytes_used := 7\<rparr>, example_world)) \<and>
   bytes_used ((example_region 10)\<lparr>bytes_used := 7\<rparr>)
     \<le> num_bytes ((example_region 10)\<lparr>bytes_used := 7\<rparr>) \<and>
   map_option (map_sum id (\<lambda>x. (num_bytes (fst x), bytes_used (fst x))))
     (Extend cudaMemcpy_ok (example_region 10) 20 example_world) = Some (Inr (32, 20)) \<and>
   (20 :: size_t) \<le> 32"
proof -
  have inv: "bytes_used (example_region 10) \<le> num_bytes (example_region 10)"
    and inv': "bytes_used ((example_region 10)\<lparr>bytes_used := 4\<rparr>)
      \<le> num_bytes ((example_region 10)\<lparr>bytes_used := 4\<rparr>)"
    by (simp_all add: example_region_def)
  have tail: "bytes_used ((example_region 10)\<lparr>bytes_used := 7\<rparr>)
      \<le> num_bytes ((example_region 10)\<lparr>bytes_used := 7\<rparr>)"
    using Extend_preserves_invariant [OF inv', of cudaMemcpy_ok 7 example_world]
      Extend_example_claim_tail
    by blast
  have noop: "Extend cudaMemcpy_ok (example_region 10) 5 example_world
      = Some (Inr (example_region 10, example_world))"
    using Extend_preserves_invariant [OF inv, of cudaMemcpy_ok 5 example_world]
    by (simp add: example_region_def)
  have grown: "(20 :: size_t) \<le> 32"
    using Extend_preserves_invariant [OF inv, of cudaMemcpy_ok 20 example_world]
      Extend_example_10_20
    by simp
  show ?thesis
    using inv noop tail grown Extend_example_claim_tail by (simp add: Extend_example_10_20)
qed

text \<open>
  C1, as stated, fails on a region of 0 bytes extended to 1: the next power of two that
  is at least \<open>max (2 * 0) 1\<close> is 1, and the capacity after the call is 4.
\<close>

theorem Extend_capacity_floor_counterexample:
  "map_option (map_sum id (\<lambda>x. (num_bytes (fst x), bytes_used (fst x))))
     (Extend cudaMemcpy_ok (example_region 0) 1 example_world) = Some (Inr (4, 1)) \<and>
   num_bytes (example_region 0) = 0 \<and>
   least_pow2_ge 1 (max (2 * unat (0 :: size_t)) (unat (1 :: size_t))) \<and>
   \<not> least_pow2_ge (unat (4 :: size_t)) (max (2 * unat (0 :: size_t)) (unat (1 :: size_t)))"
proof -
  have "least_pow2_ge 1 1"
    unfolding least_pow2_ge_def by (auto intro: exI [of _ 0])
  moreover have "\<not> least_pow2_ge 4 1"
  proof
    assume "least_pow2_ge 4 1"
    then have "\<forall>j. (1::nat) \<le> 2 ^ j \<longrightarrow> (4::nat) \<le> 2 ^ j"
      unfolding least_pow2_ge_def by blast
    then have "(1::nat) \<le> 2 ^ 0 \<longrightarrow> (4::nat) \<le> 2 ^ 0" by (rule spec)
    then show False by simp
  qed
  moreover have "map_option (map_sum id (\<lambda>x. (num_bytes (fst x), bytes_used (fst x))))
      (Extend cudaMemcpy_ok (example_region 0) 1 example_world) = Some (Inr (4, 1))"
    by (simp add: Extend_example_0_1)
  moreover have "num_bytes (example_region 0) = 0"
    by (simp add: example_region_def)
  ultimately show ?thesis by simp
qed

lemma Extend_diverges:
  assumes "bytes_used r < n" and "num_bytes r < n"
    and "2 ^ 63 < unat (max (num_bytes r * 2) n)"
  shows "Extend cudaMemcpy r n w = None"
  using assms(1,2) Extend_new_size_diverges [OF assms(3)] by (simp add: Extend_def)

text \<open>
  C10. A region of 10 bytes extended to \<open>2 ^ 63 + 1\<close> bytes: \<open>new_size\<close> is
  \<open>2 ^ 63 + 1\<close>, the second loop shifts \<open>i\<close> from \<open>2 ^ 63\<close> to 0 and then never
  reaches \<open>new_size\<close>, so the call does not return and no capacity is chosen.
\<close>

theorem Extend_huge_request_never_returns:
  "bytes_used (example_region 10) = 10 \<and>
   num_bytes (example_region 10) = 10 \<and>
   Extend_new_size 10 (2 ^ 63 + 1) = None \<and>
   Extend cudaMemcpy_ok (example_region 10) (2 ^ 63 + 1) example_world = None"
proof -
  have big: "2 ^ 63 < unat (max (10 * 2) (2 ^ 63 + 1 :: size_t))"
    by simp
  have "Extend_new_size 10 (2 ^ 63 + 1) = None"
    by (rule Extend_new_size_diverges [OF big])
  moreover have "Extend cudaMemcpy_ok (example_region 10) (2 ^ 63 + 1) example_world = None"
    by (rule Extend_diverges) (simp_all add: example_region_def)
  ultimately show ?thesis by (simp add: example_region_def)
qed


lemma unat_max_double:
  fixes nb n :: size_t
  assumes "max (2 * unat nb) (unat n) \<le> 2 ^ 63"
  shows "unat (max (nb * 2) n) = max (2 * unat nb) (unat n)"
proof -
  have "unat nb * unat (2 :: size_t) < 2 ^ LENGTH(64)" using assms by simp
  then have "unat (nb * 2) = unat nb * unat (2 :: size_t)"
    by (simp only: unat_mult_lem)
  then have "unat (nb * 2) = 2 * unat nb" by simp
  then show ?thesis by (simp add: max_def word_le_nat_alt)
qed

text \<open>
  C1, amended. Let the region satisfy \<open>bytes_used \<le> num_bytes\<close>, let
  \<open>num_bytes < new_bytes_used\<close> with \<open>max (2 * num_bytes) new_bytes_used \<le> 2 ^ 63\<close>, let
  the device type of the context be host or accelerator, and let the allocation of the new
  capacity and the copy succeed. Then \<open>Extend\<close> returns; the new \<open>num_bytes\<close> is the
  least power of two that is at least \<open>max (2 * num_bytes) new_bytes_used\<close> and at least
  4; the new block is the one \<open>Allocate\<close> of the owning context returned for that
  capacity; exactly the first \<open>bytes_used\<close> bytes of the old block are copied to it, so
  that they are the bytes at the start of the new block, and no other byte of memory
  changes; the old block is passed to \<open>Deallocate\<close> of the owning context with its
  deleter context; the calls are one \<open>Allocate\<close>, one copy, one \<open>Deallocate\<close>, in this
  order; and \<open>bytes_used\<close> is \<open>new_bytes_used\<close>.
\<close>

theorem Extend_reallocates:
  assumes inv: "bytes_used r \<le> num_bytes r"
    and grow: "num_bytes r < n"
    and bound: "max (2 * unat (num_bytes r)) (unat n) \<le> 2 ^ 63"
    and dev: "GetDeviceType (context r) \<noteq> kUnk"
    and alloc: "\<And>sz. least_pow2_ge (unat sz) (max 4 (max (2 * unat (num_bytes r)) (unat n)))
      \<Longrightarrow> \<exists>p dc a. Allocate (context r) sz (allocator w) = Inr (p, dc, a)"
    and copy: "\<And>dst src cnt k m.
      cudaMemcpy dst src cnt k m = (cudaSuccess, copy_bytes dst src cnt m)"
  shows "\<exists>r' w' a1.
     Extend cudaMemcpy r n w = Some (Inr (r', w')) \<and>
     least_pow2_ge (unat (num_bytes r')) (max 4 (max (2 * unat (num_bytes r)) (unat n))) \<and>
     bytes_used r' = n \<and>
     context r' = context r \<and>
     Allocate (context r) (num_bytes r') (allocator w)
       = Inr (data r', deleter_context r', a1) \<and>
     allocator w' = Deallocate (context r) (data r) (deleter_context r) a1 \<and>
     mem w' = copy_bytes (data r') (data r) (bytes_used r) (mem w) \<and>
     (\<forall>k. k < bytes_used r \<longrightarrow> mem w' (data r' + k) = mem w (data r + k)) \<and>
     (\<forall>a. \<not> a - data r' < bytes_used r \<longrightarrow> mem w' a = mem w a) \<and>
     calls w' = calls w @
       [Call_Allocate (num_bytes r'),
        Call_MemoryCopy (data r') (data r) (bytes_used r)
          (if GetDeviceType (context r) = kCpu then MemcpyHostToHost
           else MemcpyDeviceToDevice),
        Call_Deallocate (data r) (deleter_context r)]"
proof -
  let ?x = "max 4 (max (2 * unat (num_bytes r)) (unat n))"
  let ?kind = "if GetDeviceType (context r) = kCpu then MemcpyHostToHost
    else MemcpyDeviceToDevice"
  have ns: "unat (max (num_bytes r * 2) n) = max (2 * unat (num_bytes r)) (unat n)"
    by (rule unat_max_double [OF bound])
  then have "unat (max (num_bytes r * 2) n) \<le> 2 ^ 63" using bound by simp
  from Extend_new_size_least_pow2 [OF this]
  obtain c where c: "c < 64" "Extend_new_size (num_bytes r) n = Some (2 ^ c)"
    "least_pow2_ge (2 ^ c) ?x"
    unfolding ns by blast
  have cap: "least_pow2_ge (unat (2 ^ c :: size_t)) ?x"
    using c(3) by (simp only: unat_pow2 [OF c(1)])
  from alloc [OF cap]
  obtain p dc a1 where a: "Allocate (context r) (2 ^ c) (allocator w) = Inr (p, dc, a1)"
    by blast
  have kind: "GetMemoryCopyKind (context r) (context r) = Inr ?kind"
    by (rule GetMemoryCopyKind_same [OF dev])
  have mc: "MemoryCopy cudaMemcpy p (data r) (bytes_used r) ?kind (mem w)
      = Inr (copy_bytes p (data r) (bytes_used r) (mem w))"
    by (rule MemoryCopy_same_device) (rule copy)
  have nle: "\<not> n \<le> bytes_used r" using inv grow by simp
  let ?r' = "r\<lparr>data := p, deleter_context := dc, num_bytes := 2 ^ c, bytes_used := n\<rparr>"
  let ?w' = "w\<lparr>mem := copy_bytes p (data r) (bytes_used r) (mem w),
    allocator := Deallocate (context r) (data r) (deleter_context r) a1,
    calls := calls w @
      [Call_Allocate (2 ^ c), Call_MemoryCopy p (data r) (bytes_used r) ?kind,
       Call_Deallocate (data r) (deleter_context r)]\<rparr>"
  have run: "Extend cudaMemcpy r n w = Some (Inr (?r', ?w'))"
    using nle grow c(2) a kind mc by (simp add: Extend_def)
  have "least_pow2_ge (unat (num_bytes ?r')) ?x" using cap by simp
  moreover have "bytes_used ?r' = n" "context ?r' = context r" by simp_all
  moreover have "Allocate (context r) (num_bytes ?r') (allocator w)
      = Inr (data ?r', deleter_context ?r', a1)"
    using a by simp
  moreover have "allocator ?w' = Deallocate (context r) (data r) (deleter_context r) a1"
    by simp
  moreover have "mem ?w' = copy_bytes (data ?r') (data r) (bytes_used r) (mem w)"
    by simp
  moreover have "\<forall>k. k < bytes_used r \<longrightarrow> mem ?w' (data ?r' + k) = mem w (data r + k)"
    by (simp add: copy_bytes_prefix)
  moreover have "\<forall>a. \<not> a - data ?r' < bytes_used r \<longrightarrow> mem ?w' a = mem w a"
    by (simp add: copy_bytes_outside)
  moreover have "calls ?w' = calls w @
      [Call_Allocate (num_bytes ?r'),
       Call_MemoryCopy (data ?r') (data r) (bytes_used r) ?kind,
       Call_Deallocate (data r) (deleter_context r)]"
    by simp
  ultimately show ?thesis using run by blast
qed


theorem Extend_reallocates_witness:
  "bytes_used (example_region 10) \<le> num_bytes (example_region 10) \<and>
   num_bytes (example_region 10) < 20 \<and>
   GetDeviceType (context (example_region 10)) = kCpu \<and>
   map_option (map_sum id (\<lambda>x. (num_bytes (fst x), bytes_used (fst x), data (fst x),
       map (\<lambda>k. mem (snd x) (data (fst x) + k)) [0, 1, 2, 3, 4, 5, 6, 7, 8, 9],
       calls (snd x))))
     (Extend cudaMemcpy_ok (example_region 10) 20 example_world)
     = Some (Inr (32, 20, 0x2000,
         map (\<lambda>k. mem example_world (data (example_region 10) + k))
           [0, 1, 2, 3, 4, 5, 6, 7, 8, 9],
         [Call_Allocate 32, Call_MemoryCopy 0x2000 0x1000 10 MemcpyHostToHost,
          Call_Deallocate 0x1000 0]))"
proof -
  have inv: "bytes_used (example_region 10) \<le> num_bytes (example_region 10)"
    and grow: "num_bytes (example_region 10) < 20"
    and bound: "max (2 * unat (num_bytes (example_region 10))) (unat (20 :: size_t)) \<le> 2 ^ 63"
    and dev: "GetDeviceType (context (example_region 10)) \<noteq> kUnk"
    and dev': "GetDeviceType (context (example_region 10)) = kCpu"
    by (simp_all add: example_region_def example_context_def)
  have alloc: "\<exists>p dc a. Allocate (context (example_region 10)) sz (allocator example_world)
      = Inr (p, dc, a)" for sz
    by (simp add: example_region_def example_context_def bump_Allocate_def)
  have copy: "cudaMemcpy_ok dst src cnt k m = (cudaSuccess, copy_bytes dst src cnt m)"
    for dst src cnt k m
    by (simp add: cudaMemcpy_ok_def)
  from Extend_reallocates [where cudaMemcpy = cudaMemcpy_ok, OF inv grow bound dev alloc copy]
  obtain r' w' where run: "Extend cudaMemcpy_ok (example_region 10) 20 example_world
      = Some (Inr (r', w'))"
    and used: "bytes_used r' = 20"
    and bytes: "\<forall>k. k < bytes_used (example_region 10) \<longrightarrow>
      mem w' (data r' + k) = mem example_world (data (example_region 10) + k)"
    by blast
  have r': "num_bytes r' = 32" "data r' = 0x2000"
    and w': "calls w' = [Call_Allocate 32, Call_MemoryCopy 0x2000 0x1000 10 MemcpyHostToHost,
      Call_Deallocate 0x1000 0]"
    using run by (auto simp: Extend_example_10_20)
  have "bytes_used (example_region 10) = 10" by (simp add: example_region_def)
  then have b: "mem w' (data r' + k) = mem example_world (data (example_region 10) + k)"
    if "k < 10" for k
    using bytes that by simp
  have "map (\<lambda>k. mem w' (data r' + k)) [0, 1, 2, 3, 4, 5, 6, 7, 8, 9]
      = map (\<lambda>k. mem example_world (data (example_region 10) + k))
          [0, 1, 2, 3, 4, 5, 6, 7, 8, 9]"
    using b [of 0] b [of 1] b [of 2] b [of 3] b [of 4] b [of 5] b [of 6] b [of 7] b [of 8]
      b [of 9]
    by simp
  then show ?thesis
    using inv grow dev' run used r' w' by simp
qed

end
